theory Spec2Isabelle
  imports Main "HOL-Library.Word" "HOL-Library.Monad_Syntax"
begin

unbundle bit_operations_syntax

section \<open>The MAX7219/MAX7221 driver class of MAX72.h and MAX72.cpp\<close>

subsection \<open>Data\<close>

text \<open>
  \<^verbatim>\<open>uint8_t\<close> is an 8-bit word. The C++ type \<^verbatim>\<open>int\<close>, to which every operand of
  \<^verbatim>\<open><\<close>, \<^verbatim>\<open><<\<close>, \<^verbatim>\<open>|\<close>, \<^verbatim>\<open>&\<close> and \<^verbatim>\<open>~\<close> is promoted, is modelled by HOL's \<open>int\<close>
  with its width \<open>int_bits\<close> written out where the width matters (the left shift
  of \<^verbatim>\<open>setPixel\<close>). The width is fixed by the compiler of the target board, not by
  the repository (16 on the AVR boards, 32 on the ARM ones), so it is a parameter.
\<close>

type_synonym byte = "8 word"

text \<open>The macros of MAX72.cpp and MAX72.h. They expand to \<^verbatim>\<open>int\<close> literals.\<close>

definition HIGH :: int where "HIGH = 1"
definition LOW :: int where "LOW = 0"
definition OUTPUT :: int where "OUTPUT = 1"
definition CLOCK_DIVIDER :: int where "CLOCK_DIVIDER = 2"

definition DECODEMODE :: byte where "DECODEMODE = 0x9"
definition INTENSITY :: byte where "INTENSITY = 0xA"
definition SCANLIMIT :: byte where "SCANLIMIT = 0xB"
definition SHUTDOWN :: byte where "SHUTDOWN = 0xC"
definition DISPLAYTEST :: byte where "DISPLAYTEST = 0xF"

text \<open>
  \<^verbatim>\<open>#define DIGITREGISTER(x) ((x) + 1)\<close>. The sum is an \<^verbatim>\<open>int\<close>; every use passes it
  to the \<^verbatim>\<open>uint8_t\<close> parameter of \<^verbatim>\<open>writeRegister\<close>, which reduces it modulo 256.
  Addition on \<open>8 word\<close> is that sum modulo 256.
\<close>

definition DIGITREGISTER :: "byte \<Rightarrow> byte" where
  "DIGITREGISTER x = x + 1"

text \<open>
  The calls into the Arduino core and its SPI library are the driver's only effects
  outside the object. Each call is recorded, in order, as one event.
\<close>

datatype bit_order = MSBFIRST
datatype spi_mode = SPI_MODE0

datatype bus_event =
    PinMode byte int
  | DigitalWrite byte int
  | SpiBegin
  | SpiSetClockDivider int
  | SpiSetBitOrder bit_order
  | SpiSetDataMode spi_mode
  | SpiTransfer byte

text \<open>
  The private members of \<^verbatim>\<open>class MAX72\<close>, and the record of the calls made so far.
  \<^verbatim>\<open>uint8_t _displayCache[8]\<close> has the entries 0 to 7: \<open>displayCache st i\<close> is
  entry \<open>i\<close> for \<open>i < 8\<close>, and no operation reads or writes it for any other \<open>i\<close>.
\<close>

record MAX72 =
  chipSelect :: byte
  numDigits :: byte
  displayCache :: "nat \<Rightarrow> byte"
  bus :: "bus_event list"

subsection \<open>Array accesses\<close>

text \<open>
  An access to \<^verbatim>\<open>_displayCache[i]\<close> with \<open>i\<close> outside 0 to 7 is undefined behaviour in
  C++. The model stops there with \<open>None\<close>: nothing is claimed about such a run.
\<close>

definition cache_store :: "byte \<Rightarrow> byte \<Rightarrow> MAX72 \<Rightarrow> MAX72 option" where
  "cache_store i v st =
     (if unat i < 8 then Some (st\<lparr>displayCache := (displayCache st)(unat i := v)\<rparr>)
      else None)"

definition cache_load :: "byte \<Rightarrow> MAX72 \<Rightarrow> byte option" where
  "cache_load i st = (if unat i < 8 then Some (displayCache st (unat i)) else None)"

subsection \<open>writeRegister\<close>

text \<open>
  \<^verbatim>\<open>digitalWrite(_chipSelect, LOW); SPI.transfer(chipRegister);
  SPI.transfer(chipValue); digitalWrite(_chipSelect, HIGH);\<close>
\<close>

definition frame :: "byte \<Rightarrow> byte \<Rightarrow> byte \<Rightarrow> bus_event list" where
  "frame cs chipRegister chipValue =
     [DigitalWrite cs LOW, SpiTransfer chipRegister, SpiTransfer chipValue,
      DigitalWrite cs HIGH]"

definition writeRegister :: "byte \<Rightarrow> byte \<Rightarrow> MAX72 \<Rightarrow> MAX72" where
  "writeRegister chipRegister chipValue st =
     st\<lparr>bus := bus st @ frame (chipSelect st) chipRegister chipValue\<rparr>"

subsection \<open>The operations without a loop\<close>

text \<open>\<^verbatim>\<open>if (intensity <= 0xf) { writeRegister(INTENSITY, intensity); }\<close>\<close>

definition setIntensity :: "byte \<Rightarrow> MAX72 \<Rightarrow> MAX72" where
  "setIntensity intensity st =
     (if uint intensity \<le> 0xf then writeRegister INTENSITY intensity st else st)"

text \<open>
  The guard of \<^verbatim>\<open>setDigit\<close> and \<^verbatim>\<open>setPixel\<close> is written \<^verbatim>\<open>0 <= digit < _numDigits\<close>.
  C++ parses it as \<^verbatim>\<open>(0 <= digit) < _numDigits\<close>: the \<^verbatim>\<open>bool\<close> result of the first
  comparison is promoted to the \<^verbatim>\<open>int\<close> 1 or 0 and compared with \<^verbatim>\<open>_numDigits\<close>.
\<close>

definition digit_guard :: "byte \<Rightarrow> byte \<Rightarrow> bool" where
  "digit_guard digit n = ((if (0::int) \<le> uint digit then (1::int) else 0) < uint n)"

text \<open>
  \<^verbatim>\<open>if (0 <= digit < _numDigits) { _displayCache[digit] = segments;
  writeRegister(DIGITREGISTER(digit), _displayCache[digit]); }\<close>
\<close>

definition setDigit :: "byte \<Rightarrow> byte \<Rightarrow> MAX72 \<Rightarrow> MAX72 option" where
  "setDigit digit segments st =
     (if digit_guard digit (numDigits st) then
        do {
          st1 \<leftarrow> cache_store digit segments st;
          v \<leftarrow> cache_load digit st1;
          Some (writeRegister (DIGITREGISTER digit) v st1)
        }
      else Some st)"

text \<open>
  \<^verbatim>\<open>HIGH << segment\<close>: the \<^verbatim>\<open>int\<close> 1 shifted left. A shift count of the width of
  \<^verbatim>\<open>int\<close> or more is undefined behaviour (\<open>None\<close>); a count of width - 1 gives the
  bit pattern of the sign bit, the most negative \<^verbatim>\<open>int\<close>.
\<close>

definition shift_HIGH :: "nat \<Rightarrow> byte \<Rightarrow> int option" where
  "shift_HIGH int_bits segment =
     (if unat segment < int_bits
      then Some (signed_take_bit (int_bits - 1) (push_bit (unat segment) HIGH))
      else None)"

text \<open>
  \<^verbatim>\<open>if (! (0 <= digit < _numDigits)) { return; }
  if (state) { _displayCache[digit] |= (HIGH << segment); writeRegister(...); }
  else { _displayCache[digit] &= ~ (HIGH << segment); writeRegister(...); }\<close>
  The compound assignments compute on \<^verbatim>\<open>int\<close> and convert the result back to
  \<^verbatim>\<open>uint8_t\<close>, that is modulo 256 (\<open>word_of_int\<close>).
\<close>

definition setPixel :: "nat \<Rightarrow> byte \<Rightarrow> byte \<Rightarrow> bool \<Rightarrow> MAX72 \<Rightarrow> MAX72 option" where
  "setPixel int_bits digit segment state st =
     (if \<not> digit_guard digit (numDigits st) then Some st
      else if state then
        do {
          m \<leftarrow> shift_HIGH int_bits segment;
          c \<leftarrow> cache_load digit st;
          st1 \<leftarrow> cache_store digit (word_of_int (uint c OR m)) st;
          v \<leftarrow> cache_load digit st1;
          Some (writeRegister (DIGITREGISTER digit) v st1)
        }
      else
        do {
          m \<leftarrow> shift_HIGH int_bits segment;
          c \<leftarrow> cache_load digit st;
          st1 \<leftarrow> cache_store digit (word_of_int (uint c AND NOT m)) st;
          v \<leftarrow> cache_load digit st1;
          Some (writeRegister (DIGITREGISTER digit) v st1)
        })"

subsection \<open>The operations with a loop over the digits\<close>

text \<open>
  Every loop is \<^verbatim>\<open>for (uint8_t i = 0; i < _numDigits; i++)\<close>. The counter is a
  byte; it cannot wrap, since \<open>i < _numDigits\<close> keeps it below 255 before the
  increment.
\<close>

lemma byte_succ: "i < (n::byte) \<Longrightarrow> unat (i + 1) = unat i + 1"
  by unat_arith

lemma byte_measure: "i < (n::byte) \<Longrightarrow> 256 - unat (i + 1) < 256 - unat i"
  using unsigned_less [of i, where 'a = nat] by (simp add: byte_succ)

text \<open>\<^verbatim>\<open>_displayCache[i] = 0x0; writeRegister(DIGITREGISTER(i), _displayCache[i]);\<close>\<close>

function dispClear_loop :: "byte \<Rightarrow> MAX72 \<Rightarrow> MAX72 option" where
  "dispClear_loop i st =
     (if i < numDigits st then
        do {
          st1 \<leftarrow> cache_store i 0x0 st;
          v \<leftarrow> cache_load i st1;
          dispClear_loop (i + 1) (writeRegister (DIGITREGISTER i) v st1)
        }
      else Some st)"
  by pat_completeness auto
termination
  by (relation "measure (\<lambda>(i, st). 256 - unat i)") (auto simp: byte_measure)

definition dispClear :: "MAX72 \<Rightarrow> MAX72 option" where
  "dispClear st = dispClear_loop 0 st"

text \<open>\<^verbatim>\<open>_displayCache[i] = 0xff; writeRegister(DIGITREGISTER(i), _displayCache[i]);\<close>\<close>

function dispAll_loop :: "byte \<Rightarrow> MAX72 \<Rightarrow> MAX72 option" where
  "dispAll_loop i st =
     (if i < numDigits st then
        do {
          st1 \<leftarrow> cache_store i 0xff st;
          v \<leftarrow> cache_load i st1;
          dispAll_loop (i + 1) (writeRegister (DIGITREGISTER i) v st1)
        }
      else Some st)"
  by pat_completeness auto
termination
  by (relation "measure (\<lambda>(i, st). 256 - unat i)") (auto simp: byte_measure)

definition dispAll :: "MAX72 \<Rightarrow> MAX72 option" where
  "dispAll st = dispAll_loop 0 st"

text \<open>\<^verbatim>\<open>writeRegister(DIGITREGISTER(i), _displayCache[i]);\<close>\<close>

function dispRefresh_loop :: "byte \<Rightarrow> MAX72 \<Rightarrow> MAX72 option" where
  "dispRefresh_loop i st =
     (if i < numDigits st then
        do {
          v \<leftarrow> cache_load i st;
          dispRefresh_loop (i + 1) (writeRegister (DIGITREGISTER i) v st)
        }
      else Some st)"
  by pat_completeness auto
termination
  by (relation "measure (\<lambda>(i, st). 256 - unat i)") (auto simp: byte_measure)

definition dispRefresh :: "MAX72 \<Rightarrow> MAX72 option" where
  "dispRefresh st = dispRefresh_loop 0 st"

text \<open>
  \<^verbatim>\<open>for (uint8_t i = 0, colmask = 0b00000001; i < _numDigits; i++, colmask <<= 1)\<close>
  declares \<^verbatim>\<open>colmask\<close> as a second \<^verbatim>\<open>uint8_t\<close>. \<^verbatim>\<open>colmask & digits\<close> is an \<^verbatim>\<open>int\<close>,
  true when it is not 0; \<^verbatim>\<open>colmask <<= 1\<close> shifts the promoted value by one and
  converts back to \<^verbatim>\<open>uint8_t\<close>, which drops bit 8. Both branches of the body end in
  the same call of \<^verbatim>\<open>writeRegister\<close>.
\<close>

function setMatrix_loop :: "byte \<Rightarrow> byte \<Rightarrow> byte \<Rightarrow> byte \<Rightarrow> MAX72 \<Rightarrow> MAX72 option" where
  "setMatrix_loop i colmask digits segments st =
     (if i < numDigits st then
        do {
          st2 \<leftarrow>
            (if uint colmask AND uint digits \<noteq> 0 then
               do {
                 st1 \<leftarrow> cache_store i segments st;
                 v \<leftarrow> cache_load i st1;
                 Some (writeRegister (DIGITREGISTER i) v st1)
               }
             else
               do {
                 st1 \<leftarrow> cache_store i 0x0 st;
                 v \<leftarrow> cache_load i st1;
                 Some (writeRegister (DIGITREGISTER i) v st1)
               });
          setMatrix_loop (i + 1) (word_of_int (push_bit 1 (uint colmask))) digits segments st2
        }
      else Some st)"
  by pat_completeness auto
termination
  by (relation "measure (\<lambda>(i, colmask, digits, segments, st). 256 - unat i)")
    (auto simp: byte_measure)

definition setMatrix :: "byte \<Rightarrow> byte \<Rightarrow> MAX72 \<Rightarrow> MAX72 option" where
  "setMatrix digits segments st = setMatrix_loop 0 0b00000001 digits segments st"

text \<open>\<^verbatim>\<open>_displayCache[i] = segments; writeRegister(DIGITREGISTER(i), _displayCache[i]);\<close>\<close>

function setRows_loop :: "byte \<Rightarrow> byte \<Rightarrow> MAX72 \<Rightarrow> MAX72 option" where
  "setRows_loop i segments st =
     (if i < numDigits st then
        do {
          st1 \<leftarrow> cache_store i segments st;
          v \<leftarrow> cache_load i st1;
          setRows_loop (i + 1) segments (writeRegister (DIGITREGISTER i) v st1)
        }
      else Some st)"
  by pat_completeness auto
termination
  by (relation "measure (\<lambda>(i, segments, st). 256 - unat i)") (auto simp: byte_measure)

definition setRows :: "byte \<Rightarrow> MAX72 \<Rightarrow> MAX72 option" where
  "setRows segments st = setRows_loop 0 segments st"

text \<open>
  \<^verbatim>\<open>uint8_t colmask = 1;\<close> before the loop, \<^verbatim>\<open>colmask = colmask << 1;\<close> at the end of
  the body; the digits selected by the mask get \<^verbatim>\<open>0xff\<close>, the others \<^verbatim>\<open>0x0\<close>.
\<close>

function setColumns_loop :: "byte \<Rightarrow> byte \<Rightarrow> byte \<Rightarrow> MAX72 \<Rightarrow> MAX72 option" where
  "setColumns_loop i colmask digits st =
     (if i < numDigits st then
        do {
          st2 \<leftarrow>
            (if uint colmask AND uint digits \<noteq> 0 then
               do {
                 st1 \<leftarrow> cache_store i 0xff st;
                 v \<leftarrow> cache_load i st1;
                 Some (writeRegister (DIGITREGISTER i) v st1)
               }
             else
               do {
                 st1 \<leftarrow> cache_store i 0x0 st;
                 v \<leftarrow> cache_load i st1;
                 Some (writeRegister (DIGITREGISTER i) v st1)
               });
          setColumns_loop (i + 1) (word_of_int (push_bit 1 (uint colmask))) digits st2
        }
      else Some st)"
  by pat_completeness auto
termination
  by (relation "measure (\<lambda>(i, colmask, digits, st). 256 - unat i)")
    (auto simp: byte_measure)

definition setColumns :: "byte \<Rightarrow> MAX72 \<Rightarrow> MAX72 option" where
  "setColumns digits st = setColumns_loop 0 1 digits st"

subsection \<open>The constructor\<close>

text \<open>
  The constructor stores its two arguments, configures the pin and the SPI bus, and
  runs the initialisation sequence. It does not initialise \<^verbatim>\<open>_displayCache\<close>: the
  entries that \<^verbatim>\<open>dispClear\<close> does not reach keep whatever the memory held, which is
  the argument \<open>mem\<close>. \<^verbatim>\<open>_numDigits - 1\<close> is an \<^verbatim>\<open>int\<close> converted to the \<^verbatim>\<open>uint8_t\<close>
  parameter.
\<close>

definition MAX72_init :: "byte \<Rightarrow> byte \<Rightarrow> (nat \<Rightarrow> byte) \<Rightarrow> MAX72 option" where
  "MAX72_init cs numdigits mem =
     do {
       let st0 = \<lparr>chipSelect = cs, numDigits = numdigits, displayCache = mem,
                  bus = [PinMode cs OUTPUT, DigitalWrite cs HIGH, SpiBegin,
                         SpiSetClockDivider CLOCK_DIVIDER, SpiSetBitOrder MSBFIRST,
                         SpiSetDataMode SPI_MODE0]\<rparr>;
       let st1 = writeRegister SHUTDOWN 0x0 st0;
       st2 \<leftarrow> dispClear st1;
       let st3 = writeRegister SCANLIMIT (word_of_int (uint (numDigits st2) - 1)) st2;
       let st4 = writeRegister DECODEMODE 0x0 st3;
       let st5 = writeRegister INTENSITY 0xf st4;
       Some (writeRegister SHUTDOWN 0x1 st5)
     }"

subsection \<open>Register writes on the wire\<close>

text \<open>
  A register write is what \<^verbatim>\<open>writeRegister\<close> puts on the wire: the chip-select pin
  driven \<^verbatim>\<open>LOW\<close>, two transfers (address, value), and the same pin driven \<^verbatim>\<open>HIGH\<close>.
  \<open>reg_writes\<close> reads the register writes off a record of events, in order, and
  \<open>last_write\<close> gives the value of the most recent one to an address.
\<close>

fun is_frame :: "bus_event list \<Rightarrow> (byte \<times> byte) option" where
  "is_frame [DigitalWrite p l, SpiTransfer a, SpiTransfer v, DigitalWrite q h] =
     (if p = q \<and> l = LOW \<and> h = HIGH then Some (a, v) else None)"
| "is_frame _ = None"

fun reg_writes :: "bus_event list \<Rightarrow> (byte \<times> byte) list" where
  "reg_writes [] = []"
| "reg_writes (e # es) =
     (case is_frame (take 4 (e # es)) of
        Some w \<Rightarrow> w # reg_writes es
      | None \<Rightarrow> reg_writes es)"

definition last_write :: "(byte \<times> byte) list \<Rightarrow> byte \<Rightarrow> byte option" where
  "last_write ws a = map_of (rev ws) a"

text \<open>
  The cache is consistent with the wire when every cache entry whose digit register
  \<open>i + 1\<close> has been written holds the value of the most recent write to it.
\<close>

definition cache_consistent :: "MAX72 \<Rightarrow> bool" where
  "cache_consistent st \<longleftrightarrow>
     (\<forall>i<8. \<forall>v. last_write (reg_writes (bus st)) (of_nat i + 1) = Some v
                  \<longrightarrow> displayCache st i = v)"

text \<open>
  The states a program can bring a driver into: those the constructor returns, and
  those any public operation returns from one of them.
\<close>

inductive reachable :: "nat \<Rightarrow> MAX72 \<Rightarrow> bool" for int_bits :: nat where
  constructed: "MAX72_init cs numdigits mem = Some st \<Longrightarrow> reachable int_bits st"
| after_dispClear: "reachable int_bits st \<Longrightarrow> dispClear st = Some st' \<Longrightarrow> reachable int_bits st'"
| after_dispAll: "reachable int_bits st \<Longrightarrow> dispAll st = Some st' \<Longrightarrow> reachable int_bits st'"
| after_dispRefresh:
    "reachable int_bits st \<Longrightarrow> dispRefresh st = Some st' \<Longrightarrow> reachable int_bits st'"
| after_setIntensity: "reachable int_bits st \<Longrightarrow> reachable int_bits (setIntensity intensity st)"
| after_setDigit:
    "reachable int_bits st \<Longrightarrow> setDigit digit segments st = Some st' \<Longrightarrow> reachable int_bits st'"
| after_setMatrix:
    "reachable int_bits st \<Longrightarrow> setMatrix digits segments st = Some st' \<Longrightarrow> reachable int_bits st'"
| after_setRows:
    "reachable int_bits st \<Longrightarrow> setRows segments st = Some st' \<Longrightarrow> reachable int_bits st'"
| after_setColumns:
    "reachable int_bits st \<Longrightarrow> setColumns digits st = Some st' \<Longrightarrow> reachable int_bits st'"
| after_setPixel:
    "reachable int_bits st \<Longrightarrow> setPixel int_bits digit segment state st = Some st' \<Longrightarrow>
     reachable int_bits st'"

subsection \<open>The effect of one step and of a whole loop\<close>

text \<open>
  \<open>digit_write i v\<close> is the body shared by the digit operations: store \<open>v\<close> in
  entry \<open>i\<close> and write it to digit register \<open>i + 1\<close>. \<open>write_digits val i n\<close> is
  that step for the digits \<open>i\<close> up to \<open>n - 1\<close> in ascending order, digit \<open>j\<close>
  getting \<open>val j\<close>.
\<close>

definition digit_write :: "byte \<Rightarrow> byte \<Rightarrow> MAX72 \<Rightarrow> MAX72" where
  "digit_write i v st =
     st\<lparr>displayCache := (displayCache st)(unat i := v),
        bus := bus st @ frame (chipSelect st) (i + 1) v\<rparr>"

definition write_digits :: "(nat \<Rightarrow> byte) \<Rightarrow> nat \<Rightarrow> nat \<Rightarrow> MAX72 \<Rightarrow> MAX72" where
  "write_digits val i n st =
     st\<lparr>displayCache := (\<lambda>j. if i \<le> j \<and> j < n then val j else displayCache st j),
        bus := bus st @ concat (map (\<lambda>j. frame (chipSelect st) (of_nat j + 1) (val j)) [i..<n])\<rparr>"

text \<open>
  What \<^verbatim>\<open>setPixel\<close> leaves in a cache byte \<open>c\<close>, on bytes: bit \<open>segment\<close> set or
  cleared.
\<close>

definition pixel_value :: "bool \<Rightarrow> byte \<Rightarrow> byte \<Rightarrow> byte" where
  "pixel_value state segment c =
     (if state then c OR push_bit (unat segment) 1 else c AND NOT (push_bit (unat segment) 1))"

subsection \<open>Sample drivers\<close>

text \<open>
  Two contents of the memory the object is placed in (a pattern, and zeroed static
  storage), and an 8-digit driver on chip-select pin 10 with a cache that shows the
  pattern. They are the concrete inputs of the examples below.
\<close>

definition sample_cache :: "nat \<Rightarrow> byte" where
  "sample_cache i = (if i = 0 then 0x01 else if i = 1 then 0x80 else 0x55)"

definition zero_cache :: "nat \<Rightarrow> byte" where
  "zero_cache i = 0"

definition driver8 :: MAX72 where
  "driver8 = \<lparr>chipSelect = 10, numDigits = 8, displayCache = sample_cache, bus = []\<rparr>"

section \<open>Lemmas\<close>

declare dispClear_loop.simps [simp del] dispAll_loop.simps [simp del]
  dispRefresh_loop.simps [simp del] setMatrix_loop.simps [simp del]
  setRows_loop.simps [simp del] setColumns_loop.simps [simp del]

subsection \<open>Steps\<close>

lemma digit_guard_iff: "digit_guard digit n \<longleftrightarrow> 1 < unat n"
  unfolding digit_guard_def uint_nat by (simp only: of_nat_0_le_iff if_True) linarith

lemma store_load:
  "do { st1 \<leftarrow> cache_store i v st; v' \<leftarrow> cache_load i st1; g v' st1 } =
   (if unat i < 8 then g v (st\<lparr>displayCache := (displayCache st)(unat i := v)\<rparr>) else None)"
  by (simp add: cache_store_def cache_load_def)

lemma write_stored:
  "writeRegister (DIGITREGISTER i) v (st\<lparr>displayCache := (displayCache st)(unat i := v)\<rparr>) =
   digit_write i v st"
  by (simp add: writeRegister_def DIGITREGISTER_def digit_write_def)

lemma digit_write_fields [simp]:
  "numDigits (digit_write i v st) = numDigits st"
  "chipSelect (digit_write i v st) = chipSelect st"
  "displayCache (digit_write i v st) = (displayCache st)(unat i := v)"
  "bus (digit_write i v st) = bus st @ frame (chipSelect st) (i + 1) v"
  by (simp_all add: digit_write_def)

lemma write_digits_fields [simp]:
  "numDigits (write_digits val i n st) = numDigits st"
  "chipSelect (write_digits val i n st) = chipSelect st"
  by (simp_all add: write_digits_def)

lemma write_digits_empty: "n \<le> i \<Longrightarrow> write_digits val i n st = st"
proof -
  assume "n \<le> i"
  then have "(\<lambda>j. if i \<le> j \<and> j < n then val j else displayCache st j) = displayCache st"
    by (auto simp: fun_eq_iff)
  with \<open>n \<le> i\<close> show ?thesis
    by (simp add: write_digits_def)
qed

lemma write_digits_step:
  "unat i < n \<Longrightarrow>
   write_digits val (Suc (unat i)) n (digit_write i (val (unat i)) st) =
   write_digits val (unat i) n st"
  by (auto simp add: write_digits_def digit_write_def upt_conv_Cons fun_eq_iff)

lemma digit_loop_eq:
  assumes unfold: "\<And>i st. Q st \<Longrightarrow> f i st =
      (if i < numDigits st
       then if unat i < 8 then f (i + 1) (digit_write i (val (unat i)) st) else None
       else Some st)"
    and pres: "\<And>i st. Q st \<Longrightarrow> Q (digit_write i (val (unat i)) st)"
  shows "Q st \<Longrightarrow> f i st =
      (if unat (numDigits st) \<le> 8 \<or> numDigits st \<le> i
       then Some (write_digits val (unat i) (unat (numDigits st)) st) else None)"
proof (induction "256 - unat i" arbitrary: i st rule: less_induct)
  case less
  show ?case
  proof (cases "i < numDigits st")
    case False
    then have "numDigits st \<le> i" "unat (numDigits st) \<le> unat i"
      by (simp_all add: word_less_nat_alt word_le_nat_alt)
    then show ?thesis
      using False unfold [OF less.prems, of i] by (simp add: write_digits_empty)
  next
    case True
    then have lt: "unat i < unat (numDigits st)" and nle: "\<not> numDigits st \<le> i"
      by (simp_all add: word_less_nat_alt word_le_nat_alt)
    show ?thesis
    proof (cases "unat i < 8")
      case False
      with lt nle True show ?thesis
        using unfold [OF less.prems, of i] by simp
    next
      case i8: True
      let ?st = "digit_write i (val (unat i)) st"
      have suc: "unat (i + 1) = Suc (unat i)"
        using byte_succ [OF True] by simp
      have step: "f i st = f (i + 1) ?st"
        using unfold [OF less.prems, of i] True i8 by (simp only: if_True)
      have "f (i + 1) ?st =
          (if unat (numDigits ?st) \<le> 8 \<or> numDigits ?st \<le> i + 1
           then Some (write_digits val (unat (i + 1)) (unat (numDigits ?st)) ?st) else None)"
        using byte_measure [OF True] pres [OF less.prems] by (rule less.hyps)
      moreover have "(unat (numDigits st) \<le> 8 \<or> numDigits st \<le> i + 1)
          \<longleftrightarrow> unat (numDigits st) \<le> 8"
        using i8 suc by (auto simp: word_le_nat_alt)
      ultimately have "f (i + 1) ?st =
          (if unat (numDigits st) \<le> 8
           then Some (write_digits val (Suc (unat i)) (unat (numDigits st)) ?st) else None)"
        by (simp only: suc digit_write_fields)
      then show ?thesis
        using nle by (simp only: step write_digits_step [OF lt] simp_thms)
    qed
  qed
qed


lemma dispClear_loop_unfold:
  "dispClear_loop i st =
     (if i < numDigits st
      then if unat i < 8 then dispClear_loop (i + 1) (digit_write i 0 st) else None
      else Some st)"
  by (subst dispClear_loop.simps) (simp only: store_load write_stored)

lemma dispClear_loop_eq:
  "dispClear_loop i st =
     (if unat (numDigits st) \<le> 8 \<or> numDigits st \<le> i
      then Some (write_digits (\<lambda>_. 0) (unat i) (unat (numDigits st)) st) else None)"
  by (rule digit_loop_eq [where Q = "\<lambda>_. True" and f = dispClear_loop])
    (rule dispClear_loop_unfold, simp_all)

lemma dispAll_loop_unfold:
  "dispAll_loop i st =
     (if i < numDigits st
      then if unat i < 8 then dispAll_loop (i + 1) (digit_write i 0xff st) else None
      else Some st)"
  by (subst dispAll_loop.simps) (simp only: store_load write_stored)

lemma dispAll_loop_eq:
  "dispAll_loop i st =
     (if unat (numDigits st) \<le> 8 \<or> numDigits st \<le> i
      then Some (write_digits (\<lambda>_. 0xff) (unat i) (unat (numDigits st)) st) else None)"
  by (rule digit_loop_eq [where Q = "\<lambda>_. True" and f = dispAll_loop])
    (rule dispAll_loop_unfold, simp_all)

lemma setRows_loop_unfold:
  "setRows_loop i segments st =
     (if i < numDigits st
      then if unat i < 8 then setRows_loop (i + 1) segments (digit_write i segments st) else None
      else Some st)"
  by (subst setRows_loop.simps) (simp only: store_load write_stored)

lemma setRows_loop_eq:
  "setRows_loop i segments st =
     (if unat (numDigits st) \<le> 8 \<or> numDigits st \<le> i
      then Some (write_digits (\<lambda>_. segments) (unat i) (unat (numDigits st)) st) else None)"
  by (rule digit_loop_eq [where Q = "\<lambda>_. True" and f = "\<lambda>i. setRows_loop i segments"])
    (rule setRows_loop_unfold, simp_all)

lemma refresh_step:
  "displayCache st (unat i) = v \<Longrightarrow>
   writeRegister (DIGITREGISTER i) v st = digit_write i v st"
  by (auto simp add: writeRegister_def DIGITREGISTER_def digit_write_def)

lemma dispRefresh_loop_unfold:
  "dispRefresh_loop i st =
     (if i < numDigits st
      then if unat i < 8
        then dispRefresh_loop (i + 1) (digit_write i (displayCache st (unat i)) st)
        else None
      else Some st)"
  by (subst dispRefresh_loop.simps) (simp add: cache_load_def refresh_step)

lemma dispRefresh_loop_eq:
  "dispRefresh_loop i st =
     (if unat (numDigits st) \<le> 8 \<or> numDigits st \<le> i
      then Some (write_digits (displayCache st) (unat i) (unat (numDigits st)) st) else None)"
proof (rule digit_loop_eq [where Q = "\<lambda>s. displayCache s = displayCache st"
        and f = dispRefresh_loop and val = "displayCache st"])
  fix j and s :: MAX72
  assume "displayCache s = displayCache st"
  then show "dispRefresh_loop j s =
      (if j < numDigits s
       then if unat j < 8
         then dispRefresh_loop (j + 1) (digit_write j (displayCache st (unat j)) s)
         else None
       else Some s)"
    using dispRefresh_loop_unfold [of j s] by (simp only:)
next
  fix j :: byte and s :: MAX72
  assume "displayCache s = displayCache st"
  then show "displayCache (digit_write j (displayCache st (unat j)) s) = displayCache st"
    by (auto simp: digit_write_def)
qed (rule refl)

lemma mask_test: "uint (c::byte) AND uint d \<noteq> 0 \<longleftrightarrow> c AND d \<noteq> 0"
proof -
  have "uint c AND uint d = uint (c AND d)" by (simp only: uint_and)
  then show ?thesis by (simp only: uint_0_iff)
qed
lemma colmask_test:
  "k < 8 \<Longrightarrow> (2 :: byte) ^ k AND digits \<noteq> 0 \<longleftrightarrow> bit digits k"
  using and_exp_eq_0_iff_not_bit [of digits k] by (simp only: and.commute) blast
lemma colmask_shift: "(word_of_int (push_bit 1 (uint (c :: byte))) :: byte) = 2 * c"
  by (simp only: push_bit_eq_mult power_one_right word_of_int_uint mult.commute [of _ 2] flip: word_mult_def) (simp add: wi_hom_syms)

lemma setMatrix_loop_unfold:
  "setMatrix_loop i (2 ^ unat i) digits segments st =
     (if i < numDigits st
      then if unat i < 8
        then setMatrix_loop (i + 1) (2 ^ unat (i + 1)) digits segments
               (digit_write i (if bit digits (unat i) then segments else 0) st)
        else None
      else Some st)"
proof (cases "i < numDigits st \<and> unat i < 8")
  case True
  then have nx: "2 * (2::byte) ^ unat i = 2 ^ unat (i + 1)"
    using byte_succ [of i "numDigits st"] by simp
  have t: "uint ((2::byte) ^ unat i) AND uint digits \<noteq> 0 \<longleftrightarrow> bit digits (unat i)"
    using True by (simp only: mask_test colmask_test)
  show ?thesis
  proof (cases "bit digits (unat i)")
    case b: True
    with True show ?thesis
      by (subst setMatrix_loop.simps)
        (simp only: store_load write_stored t colmask_shift nx if_True bind.bind_lunit)
  next
    case b: False
    with True show ?thesis
      by (subst setMatrix_loop.simps)
        (simp only: store_load write_stored t colmask_shift nx if_True if_False
          bind.bind_lunit)
  qed
next
  case False
  then consider "\<not> i < numDigits st" | "i < numDigits st" "\<not> unat i < 8"
    by blast
  then show ?thesis
  proof cases
    case 1
    then show ?thesis
      by (subst setMatrix_loop.simps) (simp only: if_False)
  next
    case 2
    then show ?thesis
      by (subst setMatrix_loop.simps)
        (simp only: store_load if_True if_False if_cancel bind.bind_lzero)
  qed
qed

lemma setMatrix_loop_eq:
  "setMatrix_loop i (2 ^ unat i) digits segments st =
     (if unat (numDigits st) \<le> 8 \<or> numDigits st \<le> i
      then Some (write_digits (\<lambda>j. if bit digits j then segments else 0)
                  (unat i) (unat (numDigits st)) st) else None)"
  by (rule digit_loop_eq [where Q = "\<lambda>_. True"
        and f = "\<lambda>i. setMatrix_loop i (2 ^ unat i) digits segments"])
    (rule setMatrix_loop_unfold, simp_all)

lemma setColumns_loop_unfold:
  "setColumns_loop i (2 ^ unat i) digits st =
     (if i < numDigits st
      then if unat i < 8
        then setColumns_loop (i + 1) (2 ^ unat (i + 1)) digits
               (digit_write i (if bit digits (unat i) then 0xff else 0) st)
        else None
      else Some st)"
proof (cases "i < numDigits st \<and> unat i < 8")
  case True
  then have nx: "2 * (2::byte) ^ unat i = 2 ^ unat (i + 1)"
    using byte_succ [of i "numDigits st"] by simp
  have t: "uint ((2::byte) ^ unat i) AND uint digits \<noteq> 0 \<longleftrightarrow> bit digits (unat i)"
    using True by (simp only: mask_test colmask_test)
  show ?thesis
  proof (cases "bit digits (unat i)")
    case b: True
    with True show ?thesis
      by (subst setColumns_loop.simps)
        (simp only: store_load write_stored t colmask_shift nx if_True bind.bind_lunit)
  next
    case b: False
    with True show ?thesis
      by (subst setColumns_loop.simps)
        (simp only: store_load write_stored t colmask_shift nx if_True if_False
          bind.bind_lunit)
  qed
next
  case False
  then consider "\<not> i < numDigits st" | "i < numDigits st" "\<not> unat i < 8"
    by blast
  then show ?thesis
  proof cases
    case 1
    then show ?thesis
      by (subst setColumns_loop.simps) (simp only: if_False)
  next
    case 2
    then show ?thesis
      by (subst setColumns_loop.simps)
        (simp only: store_load if_True if_False if_cancel bind.bind_lzero)
  qed
qed

lemma setColumns_loop_eq:
  "setColumns_loop i (2 ^ unat i) digits st =
     (if unat (numDigits st) \<le> 8 \<or> numDigits st \<le> i
      then Some (write_digits (\<lambda>j. if bit digits j then 0xff else 0)
                  (unat i) (unat (numDigits st)) st) else None)"
  by (rule digit_loop_eq [where Q = "\<lambda>_. True"
        and f = "\<lambda>i. setColumns_loop i (2 ^ unat i) digits"])
    (rule setColumns_loop_unfold, simp_all)

subsection \<open>The operations in closed form\<close>

lemma loop_cond0: "(unat (n::byte) \<le> 8 \<or> n \<le> 0) \<longleftrightarrow> unat n \<le> 8"
  by (auto simp: word_le_nat_alt)

lemma dispClear_eq:
  "dispClear st =
     (if unat (numDigits st) \<le> 8
      then Some (write_digits (\<lambda>_. 0) 0 (unat (numDigits st)) st) else None)"
  using dispClear_loop_eq [of 0 st] by (simp only: dispClear_def loop_cond0 unat_0)

lemma dispAll_eq:
  "dispAll st =
     (if unat (numDigits st) \<le> 8
      then Some (write_digits (\<lambda>_. 0xff) 0 (unat (numDigits st)) st) else None)"
  using dispAll_loop_eq [of 0 st] by (simp only: dispAll_def loop_cond0 unat_0)

lemma dispRefresh_eq:
  "dispRefresh st =
     (if unat (numDigits st) \<le> 8
      then Some (write_digits (displayCache st) 0 (unat (numDigits st)) st) else None)"
  using dispRefresh_loop_eq [of 0 st] by (simp only: dispRefresh_def loop_cond0 unat_0)

lemma setRows_eq:
  "setRows segments st =
     (if unat (numDigits st) \<le> 8
      then Some (write_digits (\<lambda>_. segments) 0 (unat (numDigits st)) st) else None)"
  using setRows_loop_eq [of 0 segments st] by (simp only: setRows_def loop_cond0 unat_0)

lemma setMatrix_eq:
  "setMatrix digits segments st =
     (if unat (numDigits st) \<le> 8
      then Some (write_digits (\<lambda>j. if bit digits j then segments else 0) 0
                  (unat (numDigits st)) st)
      else None)"
  using setMatrix_loop_eq [of 0 digits segments st]
  by (simp only: setMatrix_def loop_cond0 unat_0 power_0)

lemma setColumns_eq:
  "setColumns digits st =
     (if unat (numDigits st) \<le> 8
      then Some (write_digits (\<lambda>j. if bit digits j then 0xff else 0) 0
                  (unat (numDigits st)) st)
      else None)"
  using setColumns_loop_eq [of 0 digits st]
  by (simp only: setColumns_def loop_cond0 unat_0 power_0)

lemma setDigit_eq:
  "setDigit digit segments st =
     (if 1 < unat (numDigits st)
      then if unat digit < 8 then Some (digit_write digit segments st) else None
      else Some st)"
  by (simp only: setDigit_def digit_guard_iff store_load write_stored)

lemma write_digits_cong:
  "(\<And>j. i \<le> j \<Longrightarrow> j < n \<Longrightarrow> val j = val' j) \<Longrightarrow>
   write_digits val i n st = write_digits val' i n st"
proof -
  assume eq: "\<And>j. i \<le> j \<Longrightarrow> j < n \<Longrightarrow> val j = val' j"
  have "(\<lambda>j. if i \<le> j \<and> j < n then val j else displayCache st j) =
      (\<lambda>j. if i \<le> j \<and> j < n then val' j else displayCache st j)"
    using eq by (auto simp: fun_eq_iff)
  moreover have "map (\<lambda>j. frame (chipSelect st) (of_nat j + 1) (val j)) [i..<n] =
      map (\<lambda>j. frame (chipSelect st) (of_nat j + 1) (val' j)) [i..<n]"
    using eq by simp
  ultimately show ?thesis
    by (simp only: write_digits_def)
qed

lemma write_digits_cache:
  "displayCache (write_digits val i n st) j =
     (if i \<le> j \<and> j < n then val j else displayCache st j)"
  by (simp add: write_digits_def)

lemma write_digits_bus:
  "bus (write_digits val i n st) =
     bus st @ concat (map (\<lambda>j. frame (chipSelect st) (of_nat j + 1) (val j)) [i..<n])"
  by (simp add: write_digits_def)

lemma writeRegister_fields [simp]:
  "numDigits (writeRegister a v st) = numDigits st"
  "chipSelect (writeRegister a v st) = chipSelect st"
  "displayCache (writeRegister a v st) = displayCache st"
  "bus (writeRegister a v st) = bus st @ frame (chipSelect st) a v"
  by (simp_all add: writeRegister_def)

lemma MAX72_init_eq:
  "MAX72_init cs n mem =
     (if unat n \<le> 8
      then Some (writeRegister SHUTDOWN 0x1 (writeRegister INTENSITY 0xf
             (writeRegister DECODEMODE 0x0 (writeRegister SCANLIMIT (n - 1)
               (write_digits (\<lambda>_. 0) 0 (unat n)
                 (writeRegister SHUTDOWN 0x0
                   \<lparr>chipSelect = cs, numDigits = n, displayCache = mem,
                    bus = [PinMode cs OUTPUT, DigitalWrite cs HIGH, SpiBegin,
                           SpiSetClockDivider CLOCK_DIVIDER, SpiSetBitOrder MSBFIRST,
                           SpiSetDataMode SPI_MODE0]\<rparr>))))))
      else None)"
  by (simp add: MAX72_init_def dispClear_eq Let_def)

lemma MAX72_init_fields:
  assumes "MAX72_init cs n mem = Some st"
  shows "numDigits st = n" "chipSelect st = cs" "unat n \<le> 8"
    "displayCache st i = (if i < unat n then 0 else mem i)"
  using assms by (auto simp: MAX72_init_eq write_digits_cache split: if_splits)


subsection \<open>setPixel on bytes\<close>

lemma shift_HIGH_byte:
  assumes "unat s < W" "8 \<le> W"
  shows "(word_of_int (signed_take_bit (W - 1) (push_bit (unat s) HIGH)) :: byte) =
     push_bit (unat s) 1"
proof (rule bit_eqI)
  fix n
  assume "possible_bit TYPE(byte) n"
  then have n8: "n < 8"
    by simp
  then have "min (W - 1) n = n"
    using assms by simp
  with n8 show "bit (word_of_int (signed_take_bit (W - 1) (push_bit (unat s) HIGH)) :: byte) n
      \<longleftrightarrow> bit (push_bit (unat s) 1 :: byte) n"
    by (simp add: bit_word_of_int_iff bit_signed_take_bit_iff HIGH_def bit_exp_iff)
qed

lemma or_byte: "(word_of_int (uint (c::byte) OR m) :: byte) = c OR word_of_int m"
  by (rule bit_eqI) (simp add: bit_word_of_int_iff bit_or_iff bit_uint_iff)

lemma and_not_byte: "(word_of_int (uint (c::byte) AND NOT m) :: byte) = c AND NOT (word_of_int m)"
  by (rule bit_eqI) (simp add: bit_word_of_int_iff bit_and_iff bit_not_iff bit_uint_iff)

lemma setPixel_eq:
  assumes "8 \<le> int_bits"
  shows "setPixel int_bits digit segment state st =
     (if 1 < unat (numDigits st)
      then if unat segment < int_bits \<and> unat digit < 8
        then Some (digit_write digit
                    (pixel_value state segment (displayCache st (unat digit))) st)
        else None
      else Some st)"
proof (cases "unat segment < int_bits")
  case True
  then have m: "shift_HIGH int_bits segment =
      Some (signed_take_bit (int_bits - 1) (push_bit (unat segment) HIGH))"
    by (simp add: shift_HIGH_def)
  show ?thesis
    unfolding setPixel_def digit_guard_iff m
    using True shift_HIGH_byte [OF True assms]
    by (simp add: cache_load_def cache_store_def write_stored or_byte and_not_byte
        pixel_value_def)
next
  case False
  then show ?thesis
    by (simp add: setPixel_def digit_guard_iff shift_HIGH_def)
qed

subsection \<open>Reading register writes off the wire\<close>

lemma is_frame_short: "length es < 4 \<Longrightarrow> is_frame es = None"
  by (induction es rule: is_frame.induct) auto

lemma is_frame_Some:
  "is_frame es = Some w \<longleftrightarrow>
     (\<exists>p. es = [DigitalWrite p LOW, SpiTransfer (fst w), SpiTransfer (snd w),
                 DigitalWrite p HIGH])"
  by (induction es rule: is_frame.induct) auto

lemma reg_writes_one: "reg_writes (frame cs a v) = [(a, v)]"
  by (simp add: frame_def LOW_def HIGH_def)

lemma short_list_cases:
  "length es < 3 \<Longrightarrow> es = [] \<or> (\<exists>x. es = [x]) \<or> (\<exists>x y. es = [x, y])"
  by (cases es; simp) (metis Suc_length_conv length_0_conv less_Suc_eq less_nat_zero_code
      numeral_2_eq_2)

lemma is_frame_straddle:
  assumes "length es < 3"
  shows "is_frame (take 4 (e # es @ frame cs a v)) = None"
proof (rule ccontr)
  assume "is_frame (take 4 (e # es @ frame cs a v)) \<noteq> None"
  then obtain w p where eq: "take 4 (e # es @ frame cs a v) =
      [DigitalWrite p LOW, SpiTransfer (fst w), SpiTransfer (snd w), DigitalWrite p HIGH]"
    using is_frame_Some by fastforce
  from short_list_cases [OF assms] show False
    using eq by (auto simp: frame_def LOW_def HIGH_def)
qed

lemma reg_writes_frame: "reg_writes (es @ frame cs a v) = reg_writes es @ [(a, v)]"
proof (induction es)
  case Nil
  show ?case by (simp add: reg_writes_one)
next
  case (Cons e es)
  show ?case
  proof (cases "length es < 3")
    case True
    then have "is_frame (take 4 (e # es)) = None"
      by (simp add: is_frame_short)
    with True Cons show ?thesis
      using is_frame_straddle [OF True, of e cs a v] by simp
  next
    case False
    then have "take 4 (e # es @ frame cs a v) = take 4 (e # es)"
      by (simp add: numeral_Bit0 take_Cons')
    with Cons show ?thesis
      by (simp split: option.splits del: take_Cons_numeral)
  qed
qed

lemma reg_writes_frames:
  "reg_writes (es @ concat (map (\<lambda>j. frame cs (a j) (v j)) js)) =
   reg_writes es @ map (\<lambda>j. (a j, v j)) js"
proof (induction js rule: rev_induct)
  case Nil
  show ?case by simp
next
  case (snoc j js)
  have "reg_writes (es @ concat (map (\<lambda>j. frame cs (a j) (v j)) (js @ [j]))) =
      reg_writes ((es @ concat (map (\<lambda>j. frame cs (a j) (v j)) js)) @ frame cs (a j) (v j))"
    by simp
  also have "\<dots> = reg_writes (es @ concat (map (\<lambda>j. frame cs (a j) (v j)) js)) @ [(a j, v j)]"
    by (rule reg_writes_frame)
  finally show ?case
    using snoc by simp
qed

subsection \<open>Guards, masks and the consistency of the cache\<close>

lemma setPixel_past_guard:
  assumes "1 < unat (numDigits st)" "setPixel int_bits digit segment state st = Some st'"
  shows "length (bus st') = length (bus st) + 4"
  using assms
  by (auto simp: setPixel_def digit_guard_iff cache_store_def cache_load_def shift_HIGH_def
      frame_def split: if_splits bind_splits)

lemma all_digits_selected: "j < 8 \<Longrightarrow> bit (0xFF :: byte) j"
proof -
  assume "j < 8"
  moreover have "(0xFF :: byte) = - 1"
    by simp
  ultimately show ?thesis
    by (simp only: bit_minus_1_iff possible_bit_word) simp
qed

lemma last_write_snoc:
  "last_write (ws @ [(a, v)]) b = (if b = a then Some v else last_write ws b)"
  by (simp add: last_write_def)

lemma byte_of_nat: "i < 8 \<Longrightarrow> unat (of_nat i :: byte) = i"
  by (simp add: unat_of_nat)

lemma digit_address:
  assumes "i < 8" "unat d < 8"
  shows "(of_nat i = (d::byte)) \<longleftrightarrow> i = unat d"
  using assms byte_of_nat [of i] by auto

lemma consistent_digit_write:
  assumes "cache_consistent st" "unat d < 8"
  shows "cache_consistent (digit_write d v st)"
  unfolding cache_consistent_def
proof (intro allI impI)
  fix i w
  assume i8: "i < 8"
    and lw: "last_write (reg_writes (bus (digit_write d v st))) (of_nat i + 1) = Some w"
  show "displayCache (digit_write d v st) i = w"
  proof (cases "i = unat d")
    case True
    with lw i8 assms(2) show ?thesis
      by (simp add: reg_writes_frame last_write_snoc digit_address)
  next
    case False
    with lw i8 assms(2) have "last_write (reg_writes (bus st)) (of_nat i + 1) = Some w"
      by (simp add: reg_writes_frame last_write_snoc digit_address)
    with assms(1) i8 have "displayCache st i = w"
      by (simp add: cache_consistent_def)
    with False show ?thesis
      by simp
  qed
qed

lemma consistent_write_digits:
  assumes "cache_consistent st" "n \<le> 8"
  shows "cache_consistent (write_digits val i n st)"
  using assms(1)
proof (induction "n - i" arbitrary: i st)
  case 0
  then show ?case
    by (simp add: write_digits_empty)
next
  case (Suc k)
  then have lt: "i < n" and i8: "i < 8"
    using assms(2) by simp_all
  from i8 have u: "unat (of_nat i :: byte) = i"
    by (rule byte_of_nat)
  have "write_digits val i n st =
      write_digits val (Suc i) n (digit_write (of_nat i) (val i) st)"
    using write_digits_step [of "of_nat i :: byte" n val st] lt by (simp only: u)
  moreover have "cache_consistent (write_digits val (Suc i) n (digit_write (of_nat i) (val i) st))"
  proof (rule Suc.hyps(1))
    show "k = n - Suc i"
      using Suc.hyps(2) by simp
    show "cache_consistent (digit_write (of_nat i) (val i) st)"
      using Suc.prems i8 by (intro consistent_digit_write) (simp_all add: u)
  qed
  ultimately show ?case
    by simp
qed

lemma consistent_config_write:
  assumes "cache_consistent st" "8 < unat a"
  shows "cache_consistent (writeRegister a v st)"
proof -
  have "of_nat i + 1 \<noteq> a" if "i < 8" for i
  proof
    assume "of_nat i + 1 = a"
    then have "unat a = unat (of_nat i + 1 :: byte)"
      by simp
    also have "\<dots> = i + 1"
      using that by (simp add: unat_word_ariths byte_of_nat)
    finally show False
      using assms(2) that by simp
  qed
  with assms(1) show ?thesis
    by (simp add: cache_consistent_def reg_writes_frame last_write_snoc)
qed

lemma consistent_init:
  assumes "MAX72_init cs n mem = Some st"
  shows "cache_consistent st"
proof -
  let ?st0 = "\<lparr>chipSelect = cs, numDigits = n, displayCache = mem,
      bus = [PinMode cs OUTPUT, DigitalWrite cs HIGH, SpiBegin,
             SpiSetClockDivider CLOCK_DIVIDER, SpiSetBitOrder MSBFIRST,
             SpiSetDataMode SPI_MODE0]\<rparr>"
  have n8: "unat n \<le> 8"
    using assms by (simp add: MAX72_init_eq split: if_splits)
  have "cache_consistent ?st0"
    by (simp add: cache_consistent_def last_write_def)
  then have "cache_consistent (write_digits (\<lambda>_. 0) 0 (unat n) (writeRegister SHUTDOWN 0x0 ?st0))"
    using n8
    by (intro consistent_write_digits consistent_config_write) (simp_all add: SHUTDOWN_def)
  then have "cache_consistent (writeRegister SHUTDOWN 0x1 (writeRegister INTENSITY 0xf
      (writeRegister DECODEMODE 0x0 (writeRegister SCANLIMIT (n - 1)
        (write_digits (\<lambda>_. 0) 0 (unat n) (writeRegister SHUTDOWN 0x0 ?st0))))))"
    by (intro consistent_config_write)
      (simp_all add: SHUTDOWN_def INTENSITY_def DECODEMODE_def SCANLIMIT_def)
  then show ?thesis
    using assms n8 by (simp add: MAX72_init_eq)
qed

lemma setPixel_cases:
  assumes "setPixel int_bits digit segment state st = Some st'"
  shows "st' = st \<or> (\<exists>v. unat digit < 8 \<and> st' = digit_write digit v st)"
  using assms
  by (auto simp: setPixel_def cache_store_def cache_load_def write_stored
      split: if_splits bind_splits)

lemma setDigit_cases:
  assumes "setDigit digit segments st = Some st'"
  shows "st' = st \<or> (unat digit < 8 \<and> st' = digit_write digit segments st)"
  using assms by (auto simp: setDigit_eq split: if_splits)

lemma consistent_setIntensity:
  "cache_consistent st \<Longrightarrow> cache_consistent (setIntensity intensity st)"
  by (auto simp: setIntensity_def INTENSITY_def intro: consistent_config_write)

lemma pixel_value_beyond_byte:
  assumes "8 \<le> unat segment"
  shows "pixel_value state segment c = c"
proof -
  have "push_bit (unat segment) (1::byte) = 0"
    using assms by simp
  then show ?thesis
    by (simp only: pixel_value_def) simp
qed

lemma digit_write_same:
  "digit_write d (displayCache st (unat d)) st =
     st\<lparr>bus := bus st @ frame (chipSelect st) (d + 1) (displayCache st (unat d))\<rparr>"
  by (simp add: digit_write_def)

lemma set_then_clear_byte:
  "\<not> bit c k \<Longrightarrow> (c OR push_bit k 1) AND NOT (push_bit k 1) = (c::byte)"
  by (rule bit_eqI) (auto simp: bit_and_iff bit_or_iff bit_not_iff bit_exp_iff)

section \<open>Properties\<close>

subsection \<open>The cache and the wire\<close>

text \<open>
  C1. The cache mirrors the chip. In every state a driver can be in (after the
  constructor and after any sequence of \<^verbatim>\<open>dispClear\<close>, \<^verbatim>\<open>dispAll\<close>, \<^verbatim>\<open>dispRefresh\<close>,
  \<^verbatim>\<open>setIntensity\<close>, \<^verbatim>\<open>setDigit\<close>, \<^verbatim>\<open>setMatrix\<close>, \<^verbatim>\<open>setRows\<close>, \<^verbatim>\<open>setColumns\<close> and
  \<^verbatim>\<open>setPixel\<close> that returns), for every digit index \<open>i\<close> whose digit register
  \<open>i + 1\<close> has been written, the cache entry at \<open>i\<close> is the value of the most
  recent register write to that register.
\<close>

theorem cache_mirrors_last_write:
  assumes "reachable int_bits st"
  shows "cache_consistent st"
  using assms
proof (induction rule: reachable.induct)
  case (constructed cs numdigits mem st)
  then show ?case by (rule consistent_init)
next
  case (after_dispClear st st')
  then show ?case
    by (auto simp: dispClear_eq split: if_splits intro: consistent_write_digits)
next
  case (after_dispAll st st')
  then show ?case
    by (auto simp: dispAll_eq split: if_splits intro: consistent_write_digits)
next
  case (after_dispRefresh st st')
  then show ?case
    by (auto simp: dispRefresh_eq split: if_splits intro: consistent_write_digits)
next
  case (after_setIntensity st intensity)
  then show ?case by (simp add: consistent_setIntensity)
next
  case (after_setDigit st digit segments st')
  then show ?case
    using setDigit_cases [of digit segments st st'] by (auto intro: consistent_digit_write)
next
  case (after_setMatrix st digits segments st')
  then show ?case
    by (auto simp: setMatrix_eq split: if_splits intro: consistent_write_digits)
next
  case (after_setRows st segments st')
  then show ?case
    by (auto simp: setRows_eq split: if_splits intro: consistent_write_digits)
next
  case (after_setColumns st digits st')
  then show ?case
    by (auto simp: setColumns_eq split: if_splits intro: consistent_write_digits)
next
  case (after_setPixel st digit segment state st')
  then show ?case
    using setPixel_cases [of int_bits digit segment state st st']
    by (auto intro: consistent_digit_write)
qed

text \<open>
  A driver of 8 digits after the constructor and \<^verbatim>\<open>setDigit(3, 0x3C)\<close>: the state is
  reachable, register 4 has been written, and the cache holds the value written.
\<close>

theorem cache_mirrors_last_write_witness:
  "\<exists>st. MAX72_init 10 8 sample_cache \<bind> setDigit 3 0x3C = Some st \<and>
     reachable 16 st \<and> cache_consistent st \<and>
     last_write (reg_writes (bus st)) (3 + 1) = Some 0x3C \<and> displayCache st 3 = 0x3C"
proof -
  obtain st0 where init: "MAX72_init 10 8 sample_cache = Some st0"
    by (simp add: MAX72_init_eq)
  then have n: "numDigits st0 = 8"
    by (rule MAX72_init_fields)
  let ?st = "digit_write 3 0x3C st0"
  have set: "setDigit 3 0x3C st0 = Some ?st"
    by (simp add: setDigit_eq n)
  have "reachable 16 st0"
    using init by (rule reachable.constructed)
  then have r: "reachable 16 ?st"
    using set by (rule reachable.after_setDigit)
  then have "cache_consistent ?st"
    by (rule cache_mirrors_last_write)
  moreover have "last_write (reg_writes (bus ?st)) (3 + 1) = Some 0x3C"
    by (simp add: reg_writes_frame last_write_snoc)
  moreover have "displayCache ?st 3 = 0x3C"
    by simp
  ultimately show ?thesis
    using init set r by simp
qed

subsection \<open>setDigit and the guard\<close>

text \<open>
  C2. After \<^verbatim>\<open>setDigit(i, v)\<close> with \<open>i\<close> below the digit count, the cache entry at
  \<open>i\<close> should be \<open>v\<close> and the last register write \<open>(i + 1, v)\<close>. On a driver
  constructed with one digit the guard \<^verbatim>\<open>(0 <= digit) < _numDigits\<close> is \<open>1 < 1\<close>:
  \<^verbatim>\<open>setDigit(0, 0x3C)\<close> returns the state it was given, with entry 0 still 0 and no
  register write.
\<close>

theorem setDigit_single_digit_driver:
  "MAX72_init 10 1 sample_cache \<noteq> None \<and>
   MAX72_init 10 1 sample_cache \<bind> setDigit 0 0x3C = MAX72_init 10 1 sample_cache \<and>
   MAX72_init 10 1 sample_cache \<bind> cache_load 0 = Some 0"
  by (simp add: MAX72_init_eq setDigit_eq cache_load_def write_digits_cache)

text \<open>
  With a digit count of 2 or more the guard is true for every index, in range or
  not. So \<^verbatim>\<open>setDigit\<close> stores the segments and issues the register write for every
  index inside the array (\<open>digit < 8\<close>), and \<^verbatim>\<open>setPixel\<close> never takes its early
  return: it does not give back the state unchanged.
\<close>

theorem guard_true_from_two_digits:
  assumes "1 < unat (numDigits st)"
  shows "digit_guard digit (numDigits st) \<and>
    (unat digit < 8 \<longrightarrow>
      (\<exists>st'. setDigit digit segments st = Some st' \<and>
        displayCache st' (unat digit) = segments \<and>
        bus st' = bus st @ frame (chipSelect st) (digit + 1) segments)) \<and>
    setPixel int_bits digit segment state st \<noteq> Some st"
proof -
  have "setPixel int_bits digit segment state st \<noteq> Some st"
    using setPixel_past_guard [OF assms, of int_bits digit segment state st] by auto
  then show ?thesis
    using assms by (simp add: digit_guard_iff setDigit_eq)
qed

theorem guard_true_from_two_digits_witness:
  "1 < unat (numDigits driver8) \<and> digit_guard 5 (numDigits driver8) \<and>
   unat (5::byte) < 8 \<and>
   (\<exists>st'. setDigit 5 0x3C driver8 = Some st' \<and> displayCache st' (unat (5::byte)) = 0x3C \<and>
      bus st' = bus driver8 @ frame (chipSelect driver8) (5 + 1) 0x3C) \<and>
   setPixel 16 5 3 True driver8 \<noteq> Some driver8 \<and>
   setPixel 16 5 3 True driver8 \<noteq> None"
proof -
  have h: "1 < unat (numDigits driver8)"
    by (simp add: driver8_def)
  have d: "unat (5::byte) < 8"
    by simp
  have r: "setPixel 16 5 3 True driver8 \<noteq> None"
    by (simp add: setPixel_eq driver8_def)
  show ?thesis
    using h d r
      guard_true_from_two_digits [OF h, where digit = 5 and segments = "0x3C"
        and int_bits = 16 and segment = 3 and state = True]
    by blast
qed

text \<open>
  C3. The guard \<^verbatim>\<open>0 <= digit < _numDigits\<close> of \<^verbatim>\<open>setDigit\<close> and \<^verbatim>\<open>setPixel\<close> should
  be true for every index and every digit count from 1 to 8, so that \<^verbatim>\<open>setDigit\<close>
  stores and writes and \<^verbatim>\<open>setPixel\<close> never takes its early return. On a driver
  constructed with one digit the guard is \<open>1 < 1\<close>, false, at the only valid index 0:
  \<^verbatim>\<open>setDigit(0, 0x55)\<close> stores nothing and writes nothing, and
  \<^verbatim>\<open>setPixel(0, 3, true)\<close> takes the early return.
\<close>

theorem guard_false_on_single_digit_driver:
  "\<not> digit_guard 0 1 \<and>
   MAX72_init 10 1 sample_cache \<noteq> None \<and>
   MAX72_init 10 1 sample_cache \<bind> setDigit 0 0x55 = MAX72_init 10 1 sample_cache \<and>
   MAX72_init 10 1 sample_cache \<bind> setPixel 16 0 3 True = MAX72_init 10 1 sample_cache"
  by (simp add: MAX72_init_eq setDigit_eq setPixel_eq digit_guard_iff)

subsection \<open>setPixel\<close>

text \<open>
  C4, as the code has it. For a digit inside the array and a segment below the width
  of \<^verbatim>\<open>int\<close>, if bit \<open>segment\<close> of the cache entry is clear before the first call,
  then \<^verbatim>\<open>setPixel(d, s, true)\<close> followed by \<^verbatim>\<open>setPixel(d, s, false)\<close> returns and
  leaves the cache as it was before the first call.
\<close>

theorem setPixel_set_then_clear:
  assumes "unat digit < 8" "unat segment < int_bits" "16 \<le> int_bits"
    and "\<not> bit (displayCache st (unat digit)) (unat segment)"
  shows "\<exists>st1 st2. setPixel int_bits digit segment True st = Some st1 \<and>
    setPixel int_bits digit segment False st1 = Some st2 \<and>
    displayCache st2 = displayCache st"
proof (cases "1 < unat (numDigits st)")
  case True
  let ?c = "displayCache st (unat digit)"
  let ?st1 = "digit_write digit (pixel_value True segment ?c) st"
  let ?st2 = "digit_write digit (pixel_value False segment (pixel_value True segment ?c)) ?st1"
  have w: "8 \<le> int_bits"
    using assms(3) by simp
  have one: "setPixel int_bits digit segment True st = Some ?st1"
    using True assms(1,2) by (simp add: setPixel_eq [OF w])
  have two: "setPixel int_bits digit segment False ?st1 = Some ?st2"
    using True assms(1,2) by (simp add: setPixel_eq [OF w])
  have "pixel_value False segment (pixel_value True segment ?c) = ?c"
    using assms(4) set_then_clear_byte [of ?c "unat segment"] by (simp add: pixel_value_def)
  then have "displayCache ?st2 = displayCache st"
    by (simp add: fun_eq_iff)
  with one two show ?thesis
    by blast
next
  case False
  have w: "8 \<le> int_bits"
    using assms(3) by simp
  from False have "setPixel int_bits digit segment state st = Some st" for state
    by (simp add: setPixel_eq [OF w])
  then show ?thesis
    by blast
qed

theorem setPixel_set_then_clear_witness:
  "unat (1::byte) < 8 \<and> unat (3::byte) < 16 \<and> (16::nat) \<le> 16 \<and>
   \<not> bit (displayCache driver8 (unat (1::byte))) (unat (3::byte)) \<and>
   (\<exists>st1 st2. setPixel 16 1 3 True driver8 = Some st1 \<and>
      setPixel 16 1 3 False st1 = Some st2 \<and> displayCache st2 = displayCache driver8)"
proof -
  have a: "unat (1::byte) < 8" and b: "unat (3::byte) < 16" and c: "(16::nat) \<le> 16"
    by simp_all
  have e: "displayCache driver8 (unat (1::byte)) = 0x80"
    by (simp add: driver8_def sample_cache_def)
  have d: "\<not> bit (displayCache driver8 (unat (1::byte))) (unat (3::byte))"
    unfolding e by (simp add: bit_iff_odd drop_bit_eq_div)
  show ?thesis
    using setPixel_set_then_clear [OF a b c d] a b c d by (intro conjI)
qed

text \<open>
  When the bit is already set, the second call clears it and the entry is not
  restored: entry 0 holds 1 and ends as 0. A digit of 8, and a segment of 16 with a
  16-bit \<^verbatim>\<open>int\<close>, are undefined.
\<close>

theorem setPixel_set_then_clear_counterexample:
  "MAX72_init 10 8 sample_cache \<bind> setPixel 16 0 0 True \<bind> cache_load 0 = Some 1 \<and>
   MAX72_init 10 8 sample_cache \<bind> setPixel 16 0 0 True
     \<bind> setPixel 16 0 0 True \<bind> setPixel 16 0 0 False \<bind> cache_load 0 = Some 0 \<and>
   MAX72_init 10 8 sample_cache \<bind> setPixel 16 8 0 True = None \<and>
   MAX72_init 10 8 sample_cache \<bind> setPixel 16 0 16 True = None"
  by (simp add: MAX72_init_eq setPixel_eq pixel_value_def cache_load_def write_digits_cache)

text \<open>
  With a digit count of 2 or more, a digit inside the array and a segment from 8 up
  to the width of \<^verbatim>\<open>int\<close> (8 to 31 for a 32-bit \<^verbatim>\<open>int\<close>), \<^verbatim>\<open>setPixel\<close> with either
  state flag leaves the cache unchanged and issues one register write of the
  unchanged cache value to the digit's register.
\<close>

theorem setPixel_segment_beyond_byte:
  assumes "1 < unat (numDigits st)" "unat digit < 8"
    and "8 \<le> unat segment" "unat segment < int_bits"
  shows "\<exists>st'. setPixel int_bits digit segment state st = Some st' \<and>
    displayCache st' = displayCache st \<and>
    bus st' = bus st @ frame (chipSelect st) (digit + 1) (displayCache st (unat digit))"
proof -
  have "8 \<le> int_bits"
    using assms(3,4) by simp
  then have "setPixel int_bits digit segment state st =
      Some (digit_write digit (displayCache st (unat digit)) st)"
    using assms by (simp add: setPixel_eq pixel_value_beyond_byte)
  then show ?thesis
    by (simp add: digit_write_same)
qed

theorem setPixel_segment_beyond_byte_witness:
  "1 < unat (numDigits driver8) \<and> unat (0::byte) < 8 \<and> 8 \<le> unat (8::byte) \<and>
   unat (8::byte) < 32 \<and>
   (\<exists>st'. setPixel 32 0 8 True driver8 = Some st' \<and>
      displayCache st' = displayCache driver8 \<and>
      bus st' = bus driver8 @ frame (chipSelect driver8) (0 + 1) (displayCache driver8 (unat (0::byte))))"
proof -
  have h: "1 < unat (numDigits driver8)" "unat (0::byte) < 8" "8 \<le> unat (8::byte)"
      "unat (8::byte) < 32"
    by (simp_all add: driver8_def)
  show ?thesis
    using h setPixel_segment_beyond_byte [OF h, of True] by blast
qed

text \<open>
  C10. For a segment \<open>s\<close> from 8 to 31 and either state flag, \<^verbatim>\<open>setPixel(d, s, state)\<close>
  should leave the cache entry at \<open>d\<close> unchanged (the shifted bit falls outside the
  byte) and still issue a register write of the unchanged value. On a driver
  constructed with one digit the guard is false at the valid digit 0:
  \<^verbatim>\<open>setPixel(0, 8, true)\<close> and \<^verbatim>\<open>setPixel(0, 8, false)\<close> return the state they were
  given, so the cache is unchanged but no register write is issued.
\<close>

theorem setPixel_beyond_byte_single_digit_driver:
  "MAX72_init 10 1 sample_cache \<noteq> None \<and>
   MAX72_init 10 1 sample_cache \<bind> setPixel 32 0 8 True = MAX72_init 10 1 sample_cache \<and>
   MAX72_init 10 1 sample_cache \<bind> setPixel 32 0 8 False = MAX72_init 10 1 sample_cache"
  by (simp add: MAX72_init_eq setPixel_eq)

subsection \<open>setMatrix and setRows\<close>

text \<open>
  C5. On a driver of 8 digits, for every digit mask and every segment mask,
  \<^verbatim>\<open>setMatrix\<close> returns; afterwards the cache entry of every digit \<open>i\<close> is the
  segment mask if bit \<open>i\<close> of the digit mask is set and 0 otherwise, and one
  register write was issued for every digit, in ascending order, whether or not its
  value changed.
\<close>

theorem setMatrix_eight_digits:
  assumes "numDigits st = 8"
  shows "\<exists>st'. setMatrix digitMask segmentMask st = Some st' \<and>
    (\<forall>i<8. displayCache st' i = (if bit digitMask i then segmentMask else 0)) \<and>
    bus st' = bus st @
      concat (map (\<lambda>i. frame (chipSelect st) (of_nat i + 1)
                          (if bit digitMask i then segmentMask else 0)) [0..<8])"
  using assms by (simp add: setMatrix_eq write_digits_cache write_digits_bus)

theorem setMatrix_eight_digits_witness:
  "numDigits driver8 = 8 \<and>
   (\<exists>st'. setMatrix 0x05 0x3C driver8 = Some st' \<and>
      (\<forall>i<8. displayCache st' i = (if bit (0x05::byte) i then 0x3C else 0)) \<and>
      bus st' = bus driver8 @
        concat (map (\<lambda>i. frame (chipSelect driver8) (of_nat i + 1)
                            (if bit (0x05::byte) i then 0x3C else 0)) [0..<8]))"
proof -
  have h: "numDigits driver8 = 8"
    by (simp add: driver8_def)
  show ?thesis
    using h setMatrix_eight_digits [OF h, of "0x05" "0x3C"] by blast
qed

text \<open>
  C7. For every driver state and every segment mask, \<^verbatim>\<open>setRows(segmentMask)\<close> and
  \<^verbatim>\<open>setMatrix(0xFF, segmentMask)\<close> have the same result: the same cache and the same
  sequence of calls on the wire. With a digit count of at most 8 that result is a
  state (neither runs outside the array).
\<close>

theorem setRows_is_setMatrix_all_digits:
  "setRows segmentMask st = setMatrix 0xFF segmentMask st \<and>
   (unat (numDigits st) \<le> 8 \<longrightarrow> setRows segmentMask st \<noteq> None)"
proof -
  have "write_digits (\<lambda>_. segmentMask) 0 (unat (numDigits st)) st =
      write_digits (\<lambda>j. if bit (0xFF :: byte) j then segmentMask else 0) 0
        (unat (numDigits st)) st"
    if "unat (numDigits st) \<le> 8"
  proof (rule write_digits_cong)
    fix j
    assume "j < unat (numDigits st)"
    with that have "bit (0xFF :: byte) j"
      by (intro all_digits_selected) simp
    then show "segmentMask = (if bit (0xFF :: byte) j then segmentMask else 0)"
      by simp
  qed
  then show ?thesis
    by (simp add: setRows_eq setMatrix_eq)
qed

theorem setRows_is_setMatrix_all_digits_witness:
  "setRows 0x01 driver8 = setMatrix 0xFF 0x01 driver8 \<and>
   unat (numDigits driver8) \<le> 8 \<and> setRows 0x01 driver8 \<noteq> None"
proof -
  have h: "unat (numDigits driver8) \<le> 8"
    by (simp add: driver8_def)
  show ?thesis
    using h setRows_is_setMatrix_all_digits [of "0x01" driver8] by blast
qed

subsection \<open>dispClear and dispRefresh\<close>

text \<open>
  C8, as the code has it. For a digit count of at most 8, \<^verbatim>\<open>dispClear\<close> returns;
  afterwards every cache entry below the digit count is 0, every other entry is
  unchanged, and a register write of 0 was issued for each digit below the digit
  count, in ascending order.
\<close>

theorem dispClear_clears_scanned_digits:
  assumes "unat (numDigits st) \<le> 8"
  shows "\<exists>st'. dispClear st = Some st' \<and>
    (\<forall>i. displayCache st' i = (if i < unat (numDigits st) then 0 else displayCache st i)) \<and>
    bus st' = bus st @
      concat (map (\<lambda>i. frame (chipSelect st) (of_nat i + 1) 0) [0..<unat (numDigits st)])"
  using assms by (simp add: dispClear_eq write_digits_cache write_digits_bus)

theorem dispClear_clears_scanned_digits_witness:
  "unat (numDigits driver8) \<le> 8 \<and>
   (\<exists>st'. dispClear driver8 = Some st' \<and>
      (\<forall>i. displayCache st' i =
         (if i < unat (numDigits driver8) then 0 else displayCache driver8 i)) \<and>
      bus st' = bus driver8 @
        concat (map (\<lambda>i. frame (chipSelect driver8) (of_nat i + 1) 0)
                 [0..<unat (numDigits driver8)]))"
proof -
  have h: "unat (numDigits driver8) \<le> 8"
    by (simp add: driver8_def)
  show ?thesis
    using h dispClear_clears_scanned_digits [OF h] by blast
qed

text \<open>
  The entries from the digit count on are not cleared. On a driver of one digit whose
  memory held \<^verbatim>\<open>0x80\<close> in entry 1, entry 1 is still \<^verbatim>\<open>0x80\<close> after \<^verbatim>\<open>dispClear\<close>.
  On a driver of two digits in zeroed memory, \<^verbatim>\<open>setDigit(5, 0x80)\<close> passes the guard
  and stores in entry 5, and \<^verbatim>\<open>dispClear\<close> leaves it there.
\<close>

theorem dispClear_beyond_digitCount_counterexample:
  "MAX72_init 10 1 sample_cache \<bind> dispClear \<bind> cache_load 1 = Some 0x80 \<and>
   MAX72_init 10 2 zero_cache \<bind> setDigit 5 0x80 \<bind> dispClear \<bind> cache_load 5
     = Some 0x80"
  by (simp add: MAX72_init_eq dispClear_eq setDigit_eq cache_load_def write_digits_cache
      sample_cache_def zero_cache_def)

text \<open>
  C9. For a digit count of at most 8, \<^verbatim>\<open>dispRefresh\<close> returns, leaves the cache
  unchanged and issues exactly one register write per digit below the digit count, in
  ascending order, each with the current cache value of that digit. After
  \<^verbatim>\<open>dispClear\<close> these are digit-count writes of 0 in ascending digit order.
\<close>

theorem dispRefresh_rewrites_cache:
  assumes "unat (numDigits st) \<le> 8"
  shows "\<exists>st'. dispRefresh st = Some st' \<and>
    displayCache st' = displayCache st \<and>
    bus st' = bus st @
      concat (map (\<lambda>i. frame (chipSelect st) (of_nat i + 1) (displayCache st i))
               [0..<unat (numDigits st)]) \<and>
    reg_writes (bus st') = reg_writes (bus st) @
      map (\<lambda>i. (of_nat i + 1, displayCache st i)) [0..<unat (numDigits st)] \<and>
    (\<exists>st1 st2. dispClear st = Some st1 \<and> dispRefresh st1 = Some st2 \<and>
       reg_writes (bus st2) = reg_writes (bus st1) @
         map (\<lambda>i. (of_nat i + 1, 0)) [0..<unat (numDigits st)])"
proof -
  let ?n = "unat (numDigits st)"
  let ?st' = "write_digits (displayCache st) 0 ?n st"
  let ?st1 = "write_digits (\<lambda>_. 0) 0 ?n st"
  let ?st2 = "write_digits (displayCache ?st1) 0 ?n ?st1"
  have r: "dispRefresh st = Some ?st'"
    using assms by (simp add: dispRefresh_eq)
  have c: "displayCache ?st' = displayCache st"
    by (simp add: write_digits_def fun_eq_iff)
  have b: "bus ?st' = bus st @
      concat (map (\<lambda>i. frame (chipSelect st) (of_nat i + 1) (displayCache st i)) [0..<?n])"
    by (simp add: write_digits_bus)
  have w: "reg_writes (bus ?st') = reg_writes (bus st) @
      map (\<lambda>i. (of_nat i + 1, displayCache st i)) [0..<?n]"
    unfolding b by (rule reg_writes_frames)
  have c1: "dispClear st = Some ?st1"
    using assms by (simp add: dispClear_eq)
  have r1: "dispRefresh ?st1 = Some ?st2"
    using assms by (simp add: dispRefresh_eq)
  have "bus ?st2 = bus ?st1 @
      concat (map (\<lambda>i. frame (chipSelect ?st1) (of_nat i + 1) (displayCache ?st1 i)) [0..<?n])"
    by (simp only: write_digits_bus)
  then have "reg_writes (bus ?st2) = reg_writes (bus ?st1) @
      map (\<lambda>i. (of_nat i + 1, displayCache ?st1 i)) [0..<?n]"
    by (simp only: reg_writes_frames)
  moreover have "map (\<lambda>i. (of_nat i + 1 :: byte, displayCache ?st1 i)) [0..<?n] =
      map (\<lambda>i. (of_nat i + 1, 0)) [0..<?n]"
    by (simp add: write_digits_cache)
  ultimately have w2: "reg_writes (bus ?st2) = reg_writes (bus ?st1) @
      map (\<lambda>i. (of_nat i + 1, 0)) [0..<?n]"
    by (simp only:)
  from r c b w c1 r1 w2 show ?thesis
    by blast
qed

theorem dispRefresh_rewrites_cache_witness:
  "unat (numDigits driver8) \<le> 8 \<and>
   (\<exists>st'. dispRefresh driver8 = Some st' \<and>
      displayCache st' = displayCache driver8 \<and>
      bus st' = bus driver8 @
        concat (map (\<lambda>i. frame (chipSelect driver8) (of_nat i + 1) (displayCache driver8 i))
                 [0..<unat (numDigits driver8)]) \<and>
      reg_writes (bus st') = reg_writes (bus driver8) @
        map (\<lambda>i. (of_nat i + 1, displayCache driver8 i)) [0..<unat (numDigits driver8)] \<and>
      (\<exists>st1 st2. dispClear driver8 = Some st1 \<and> dispRefresh st1 = Some st2 \<and>
         reg_writes (bus st2) = reg_writes (bus st1) @
           map (\<lambda>i. (of_nat i + 1, 0)) [0..<unat (numDigits driver8)]))"
proof -
  have h: "unat (numDigits driver8) \<le> 8"
    by (simp add: driver8_def)
  show ?thesis
    using h dispRefresh_rewrites_cache [OF h] by (intro conjI)
qed

subsection \<open>setIntensity\<close>

text \<open>
  C6. For every intensity argument greater than 15, \<^verbatim>\<open>setIntensity\<close> issues no register
  write: it returns the state it was given, so whatever the intensity register held
  stays. For every argument from 0 to 15 it issues exactly one register write, of that
  value to the intensity register \<^verbatim>\<open>0xA\<close>, and changes nothing else.
\<close>

theorem setIntensity_range:
  "(15 < unat intensity \<longrightarrow> setIntensity intensity st = st) \<and>
   (unat intensity \<le> 15 \<longrightarrow>
      INTENSITY = 0xA \<and>
      setIntensity intensity st =
        st\<lparr>bus := bus st @ frame (chipSelect st) INTENSITY intensity\<rparr>)"
proof -
  have "uint intensity \<le> 0xf \<longleftrightarrow> unat intensity \<le> 15"
    unfolding uint_nat by linarith
  then show ?thesis
    by (auto simp: setIntensity_def writeRegister_def INTENSITY_def)
qed

theorem setIntensity_range_witness:
  "15 < unat (16::byte) \<and> setIntensity 16 driver8 = driver8 \<and>
   unat (15::byte) \<le> 15 \<and>
   setIntensity 15 driver8 = driver8\<lparr>bus := bus driver8 @ frame (chipSelect driver8) 0xA 15\<rparr>"
proof -
  have hi: "15 < unat (16::byte)" and lo: "unat (15::byte) \<le> 15"
    by simp_all
  have "setIntensity 16 driver8 = driver8"
    using setIntensity_range [of 16 driver8] hi by blast
  moreover have "setIntensity 15 driver8 =
      driver8\<lparr>bus := bus driver8 @ frame (chipSelect driver8) 0xA 15\<rparr>"
    using setIntensity_range [of 15 driver8] lo by (simp add: INTENSITY_def)
  ultimately show ?thesis
    using hi lo by blast
qed

end
